theory Spec2Isabelle
  imports Complex_Main
begin

section \<open>Exceptions\<close>

text \<open>
  The Python exceptions that the modelled functions can raise. \<open>AttributeError\<close> is what
  Python raises when an attribute that was never assigned is read; \<open>ConnectError\<close> stands
  for whatever \<open>connect_uav()\<close> or \<open>streamon()\<close> raises; \<open>CvBridgeError\<close> is raised by the
  image conversion.
\<close>

datatype exn = AttributeError | ConnectError | CvBridgeError

section \<open>pidTracker/action\_server.py: the feedback record and the PID tick\<close>

text \<open>
  Numbers: in the feedback record and in the tick the errors, the area and the gains are
  reals, and the clamped actuator commands are Python ints. The PID formula is modelled a
  second time on Python floats, with rounding, infinities and NaN, in the section on
  floats below.
\<close>

text \<open>The \<open>ProcessVar\<close> message read by the subscriber callback (\<open>msg.area\<close>, \<open>msg.cx\<close>, \<open>msg.cy\<close>).\<close>

record ProcessVar =
  msg_area :: real
  msg_cx :: real
  msg_cy :: real

datatype handle = Tello

text \<open>
  The attributes of \<open>PIDActionServer\<close> (leading underscores dropped). \<open>area\<close> is \<open>None\<close>
  as long as the attribute \<open>_area\<close> has not been assigned: \<open>__init__\<close> does not create it.
  The action servers, the subscriber, the publisher and the write-only \<open>connect_start\<close>
  are left out: no modelled function reads them.
\<close>

record PIDActionServer =
  uav :: "handle option"
  setpoint_area :: "real \<times> real"
  setpoint_center :: "real \<times> real"
  pid_input :: "real \<times> real \<times> real"
  is_search :: bool
  x_err :: real
  y_err :: real
  prev_x_err :: real
  prev_y_err :: real
  forward_backward_velocity :: int
  left_right_velocity :: int
  up_down_velocity :: int
  yaw_velocity :: int
  area :: "real option"

text \<open>\<open>__init__\<close>, lines 44 to 54.\<close>

definition init_server :: PIDActionServer where
  "init_server =
     \<lparr> uav = None,
       setpoint_area = (20000, 100000),
       setpoint_center = (480, 360),
       pid_input = (1 / 10, 1 / 10, 1 / 10),
       is_search = True,
       x_err = 0, y_err = 0,
       prev_x_err = 0, prev_y_err = 0,
       forward_backward_velocity = 0,
       left_right_velocity = 0,
       up_down_velocity = 0,
       yaw_velocity = 0,
       area = None \<rparr>"

text \<open>\<open>pid\<close>, line 72.\<close>

definition pid :: "PIDActionServer \<Rightarrow> real \<Rightarrow> real \<Rightarrow> real" where
  "pid s error prev_error =
     fst (pid_input s) * error
     + fst (snd (pid_input s)) * (error - prev_error)
     + snd (snd (pid_input s)) * (error - prev_error)"

text \<open>\<open>process_var_sub_cb\<close>, lines 83 to 93.\<close>

definition process_var_sub_cb :: "ProcessVar \<Rightarrow> PIDActionServer \<Rightarrow> PIDActionServer" where
  "process_var_sub_cb msg s =
     (if msg_area msg = 0
      then s\<lparr> is_search := True, x_err := prev_x_err s, y_err := prev_y_err s \<rparr>
      else s\<lparr> is_search := False,
              area := Some (msg_area msg),
              x_err := msg_cx msg - fst (setpoint_center s),
              y_err := snd (setpoint_center s) - msg_cy msg \<rparr>)"

text \<open>\<open>np.clip(v, lo, hi)\<close> is \<open>minimum(maximum(v, lo), hi)\<close>; \<open>int(v)\<close> truncates towards zero.\<close>

definition clip :: "real \<Rightarrow> real \<Rightarrow> real \<Rightarrow> real" where
  "clip v lo hi = min (max v lo) hi"

definition py_int :: "real \<Rightarrow> int" where
  "py_int v = (if 0 \<le> v then \<lfloor>v\<rfloor> else \<lceil>v\<rceil>)"

text \<open>The actuator command of one tick, in the order in which line 197 logs it.\<close>

record command =
  left_right :: int
  forward_backward :: int
  up_down :: int
  yaw :: int

text \<open>
  One iteration of the loop body of \<open>execute_track_cb\<close>, lines 160 to 197. The body assigns
  local variables only, so the server is returned as it was. Reading \<open>self._area\<close> on
  line 177 raises when the attribute does not exist. When none of the three area
  conditions holds, \<open>forward_backward_velocity\<close> keeps the 0 of line 160.
\<close>

definition execute_track_tick :: "PIDActionServer \<Rightarrow> exn + (PIDActionServer \<times> command)" where
  "execute_track_tick s =
     (let yaw_v = (if x_err s \<noteq> 0
                   then py_int (clip (pid s (x_err s) (prev_x_err s)) (- 100) 100)
                   else 0);
          up_down_v = (if y_err s \<noteq> 0
                       then py_int (clip (3 * pid s (y_err s) (prev_y_err s)) (- 50) 50)
                       else 0)
      in case area s of
           None \<Rightarrow> Inl AttributeError
         | Some a \<Rightarrow>
             let forward_v =
                   (if a > fst (setpoint_area s) \<and> a < snd (setpoint_area s) then 0
                    else if a < fst (setpoint_area s) then 20
                    else if a > snd (setpoint_area s) then - 20
                    else 0)
             in Inr (s, \<lparr> left_right = 0, forward_backward = forward_v,
                          up_down = up_down_v, yaw = yaw_v \<rparr>))"

text \<open>
  The server is used by two threads at once. The subscriber thread runs
  \<open>process_var_sub_cb\<close> for each message, one call after the other; the action thread
  runs \<open>execute_main_cb\<close>. Every assignment to an attribute and every test of the flag
  is one step, and the steps of the two threads interleave in any order.

  The subscriber thread is between two calls or about to execute one of the lines 83 to 92 of the
  callback, for the message it is handling.
\<close>

datatype sub_pc =
    NoCall
  | Line83 ProcessVar | Line84 | Line85 | Line86
  | Line89 ProcessVar | Line90 ProcessVar | Line91 ProcessVar | Line92 ProcessVar

text \<open>
  The action thread is about to test the flag on line 207 (\<open>execute_main_cb\<close>), on
  line 152 (the loop of \<open>execute_search_cb\<close>) or on line 159 (the loop of
  \<open>execute_track_cb\<close>), or about to run the body of the track loop, lines 160 to 197.
\<close>

datatype ctl_pc = Line207 | Line152 | Line159 | Line160

record threads =
  server :: PIDActionServer
  subscriber :: sub_pc
  controller :: ctl_pc

definition init_threads :: threads where
  "init_threads = \<lparr> server = init_server, subscriber = NoCall, controller = Line207 \<rparr>"

text \<open>
  A message starts a callback when the subscriber thread is idle. A message that arrives
  during a callback waits in the subscriber's queue; here its delivery is an event that
  changes nothing, and the message can be delivered again later.
\<close>

definition deliver :: "ProcessVar \<Rightarrow> threads \<Rightarrow> threads" where
  "deliver msg t = (if subscriber t = NoCall then t\<lparr> subscriber := Line83 msg \<rparr> else t)"

text \<open>One line of \<open>process_var_sub_cb\<close>, lines 83 to 93.\<close>

definition sub_step :: "threads \<Rightarrow> threads" where
  "sub_step t =
     (case subscriber t of
        NoCall \<Rightarrow> t
      | Line83 msg \<Rightarrow> t\<lparr> subscriber := (if msg_area msg = 0 then Line84 else Line89 msg) \<rparr>
      | Line84 \<Rightarrow> t\<lparr> server := (server t)\<lparr> is_search := True \<rparr>, subscriber := Line85 \<rparr>
      | Line85 \<Rightarrow> t\<lparr> server := (server t)\<lparr> x_err := prev_x_err (server t) \<rparr>,
                    subscriber := Line86 \<rparr>
      | Line86 \<Rightarrow> t\<lparr> server := (server t)\<lparr> y_err := prev_y_err (server t) \<rparr>,
                    subscriber := NoCall \<rparr>
      | Line89 msg \<Rightarrow> t\<lparr> server := (server t)\<lparr> is_search := False \<rparr>,
                        subscriber := Line90 msg \<rparr>
      | Line90 msg \<Rightarrow> t\<lparr> server := (server t)\<lparr> area := Some (msg_area msg) \<rparr>,
                        subscriber := Line91 msg \<rparr>
      | Line91 msg \<Rightarrow>
          t\<lparr> server := (server t)\<lparr> x_err := msg_cx msg - fst (setpoint_center (server t)) \<rparr>,
             subscriber := Line92 msg \<rparr>
      | Line92 msg \<Rightarrow>
          t\<lparr> server := (server t)\<lparr> y_err := snd (setpoint_center (server t)) - msg_cy msg \<rparr>,
             subscriber := NoCall \<rparr>)"

text \<open>
  One step of the action thread, lines 150 to 210. On line 207 the flag sends the thread
  into the search loop or the track loop; each loop tests the flag before every
  iteration and returns to line 207 when the test fails; the body of the search loop is
  \<open>pass\<close>; the body of the track loop is \<open>execute_track_tick\<close>.
\<close>

definition ctl_step :: "threads \<Rightarrow> exn + threads" where
  "ctl_step t =
     (case controller t of
        Line207 \<Rightarrow> Inr (t\<lparr> controller := (if is_search (server t) then Line152 else Line159) \<rparr>)
      | Line152 \<Rightarrow> Inr (t\<lparr> controller := (if is_search (server t) then Line152 else Line207) \<rparr>)
      | Line159 \<Rightarrow>
          Inr (t\<lparr> controller := (if \<not> is_search (server t) then Line160 else Line207) \<rparr>)
      | Line160 \<Rightarrow>
          (case execute_track_tick (server t) of
             Inl e \<Rightarrow> Inl e
           | Inr (s', c) \<Rightarrow> Inr (t\<lparr> server := s', controller := Line159 \<rparr>)))"

text \<open>
  A run is a sequence of deliveries and of steps of the two threads. It stops at the
  first exception of the action thread.
\<close>

datatype sched = Deliver ProcessVar | SubStep | CtlStep

fun run_threads :: "sched list \<Rightarrow> threads \<Rightarrow> exn + threads" where
  "run_threads [] t = Inr t"
| "run_threads (Deliver msg # steps) t = run_threads steps (deliver msg t)"
| "run_threads (SubStep # steps) t = run_threads steps (sub_step t)"
| "run_threads (CtlStep # steps) t =
     (case ctl_step t of
        Inl e \<Rightarrow> Inl e
      | Inr t' \<Rightarrow> run_threads steps t')"

text \<open>Concrete inputs: a detection at (500, 300) with area 50000, and a lost target.\<close>

definition seen_msg :: ProcessVar where
  "seen_msg = \<lparr> msg_area = 50000, msg_cx = 500, msg_cy = 300 \<rparr>"

definition lost_msg :: ProcessVar where
  "lost_msg = \<lparr> msg_area = 0, msg_cx = 0, msg_cy = 0 \<rparr>"

definition track_state :: PIDActionServer where
  "track_state = process_var_sub_cb seen_msg init_server"

text \<open>A detection whose area is exactly the lower bound, at the setpoint centre.\<close>

definition edge_msg :: ProcessVar where
  "edge_msg = \<lparr> msg_area = 20000, msg_cx = 480, msg_cy = 360 \<rparr>"

definition edge_state :: PIDActionServer where
  "edge_state = process_var_sub_cb edge_msg init_server"

text \<open>A detection a thousand million pixels away from the centre on both axes.\<close>

definition far_msg :: ProcessVar where
  "far_msg = \<lparr> msg_area = 50000, msg_cx = 1000000480, msg_cy = - 999999640 \<rparr>"

definition far_state :: PIDActionServer where
  "far_state = process_var_sub_cb far_msg init_server"

text \<open>A detection with a negative area.\<close>

definition neg_msg :: ProcessVar where
  "neg_msg = \<lparr> msg_area = - 5, msg_cx = 480, msg_cy = 360 \<rparr>"

text \<open>
  Three runs from the initial state. In the first a detection is delivered and its
  callback runs to its end, then the action thread tests the flag twice. In the second
  the callback of the first detection has executed line 89 but not line 90 when the
  action thread makes its three steps. In the third a callback runs to its end for the
  message with the negative area.
\<close>

definition whole_callback_run :: "sched list" where
  "whole_callback_run =
     [Deliver seen_msg, SubStep, SubStep, SubStep, SubStep, SubStep, CtlStep, CtlStep]"

definition torn_callback_run :: "sched list" where
  "torn_callback_run = [Deliver seen_msg, SubStep, SubStep, CtlStep, CtlStep, CtlStep]"

definition negative_area_run :: "sched list" where
  "negative_area_run = [Deliver neg_msg, SubStep, SubStep, SubStep, SubStep, SubStep]"

text \<open>
  The messages delivered in a run; the message that the callback in progress handles;
  whether that callback is in its branch for a non-zero area.
\<close>

definition delivered :: "sched list \<Rightarrow> ProcessVar set" where
  "delivered steps = {msg. Deliver msg \<in> set steps}"

fun handled :: "sub_pc \<Rightarrow> ProcessVar option" where
  "handled (Line83 msg) = Some msg"
| "handled (Line89 msg) = Some msg"
| "handled (Line90 msg) = Some msg"
| "handled (Line91 msg) = Some msg"
| "handled (Line92 msg) = Some msg"
| "handled pc = None"

fun in_detection_branch :: "sub_pc \<Rightarrow> bool" where
  "in_detection_branch (Line89 msg) = True"
| "in_detection_branch (Line90 msg) = True"
| "in_detection_branch (Line91 msg) = True"
| "in_detection_branch (Line92 msg) = True"
| "in_detection_branch pc = False"

fun at_line_90 :: "sub_pc \<Rightarrow> bool" where
  "at_line_90 (Line90 msg) = True"
| "at_line_90 pc = False"

text \<open>
  The invariant of the runs: the message in progress is one of the set, with a non-zero
  area once the callback is in its detection branch; an assigned area is the non-zero
  area of a message of the set; and as long as the area attribute is not assigned,
  either the flag is set and the action thread is outside the track loop, or the
  subscriber thread stands between lines 89 and 90.
\<close>

definition tracked_by :: "ProcessVar set \<Rightarrow> threads \<Rightarrow> bool" where
  "tracked_by M t \<longleftrightarrow>
     (case handled (subscriber t) of
        None \<Rightarrow> True
      | Some msg \<Rightarrow> msg \<in> M \<and> (in_detection_branch (subscriber t) \<longrightarrow> msg_area msg \<noteq> 0))
     \<and> (case area (server t) of
          None \<Rightarrow>
            (is_search (server t) \<and> (controller t = Line207 \<or> controller t = Line152))
            \<or> at_line_90 (subscriber t)
        | Some a \<Rightarrow> \<exists>msg \<in> M. msg_area msg \<noteq> 0 \<and> a = msg_area msg)"

section \<open>Python floats and the PID formula on them\<close>

text \<open>
  A Python float is an IEEE 754 double: a finite value, one of the two infinities, or
  NaN. A finite value is given by the real number it stands for; the two zeros are one
  value here (they compare equal and no operation used below tells them apart).
\<close>

datatype pyfloat = Fin real | PInf | NInf | NaN

text \<open>Rounding a real to the nearest integer, a tie going to the even one.\<close>

definition round_half_even :: "real \<Rightarrow> int" where
  "round_half_even r =
     (let f = \<lfloor>r\<rfloor>; d = r - of_int f
      in if d < 1 / 2 then f else if 1 / 2 < d then f + 1 else if even f then f else f + 1)"

text \<open>
  The binade of a real: the exponent \<open>E\<close> with \<open>2 powi E \<le> \<bar>x\<bar> < 2 powi (E + 1)\<close>, kept
  between -1022 (the subnormal numbers and the smallest normal ones) and 1024 (beyond
  the largest double). It is found by counting upwards from -1022.
\<close>

fun binade_from :: "nat \<Rightarrow> int \<Rightarrow> real \<Rightarrow> int" where
  "binade_from 0 e x = e"
| "binade_from (Suc k) e x = (if \<bar>x\<bar> < 2 powi (e + 1) then e else binade_from k (e + 1) x)"

definition binade :: "real \<Rightarrow> int" where
  "binade x = binade_from 2046 (- 1022) x"

text \<open>
  The result of an arithmetic operation whose exact value is \<open>x\<close>: the value is rounded
  to 53 significant bits in its binade, ties to even, and a result of magnitude
  \<open>2 powi 1024\<close> or more is an infinity.
\<close>

definition rnd :: "real \<Rightarrow> pyfloat" where
  "rnd x =
     (let u = binade x - 52;
          y = of_int (round_half_even (x / 2 powi u)) * 2 powi u
      in if 2 powi 1024 \<le> y then PInf
         else if y \<le> - (2 powi 1024) then NInf
         else Fin y)"

text \<open>The finite doubles: an integer of less than 53 bits times a power of two.\<close>

definition representable :: "real \<Rightarrow> bool" where
  "representable y \<longleftrightarrow>
     (\<exists>n e. \<bar>n\<bar> < 2 ^ 53 \<and> - 1074 \<le> e \<and> e \<le> 971 \<and> y = of_int n * 2 powi e)"

text \<open>
  Negation, addition, subtraction and multiplication of Python floats, and the
  comparison \<open>==\<close>, which is false as soon as one side is NaN.
\<close>

fun fneg :: "pyfloat \<Rightarrow> pyfloat" where
  "fneg (Fin x) = Fin (- x)"
| "fneg PInf = NInf"
| "fneg NInf = PInf"
| "fneg NaN = NaN"

fun fadd :: "pyfloat \<Rightarrow> pyfloat \<Rightarrow> pyfloat" where
  "fadd NaN b = NaN"
| "fadd a NaN = NaN"
| "fadd (Fin x) (Fin y) = rnd (x + y)"
| "fadd PInf NInf = NaN"
| "fadd NInf PInf = NaN"
| "fadd PInf b = PInf"
| "fadd a PInf = PInf"
| "fadd NInf b = NInf"
| "fadd a NInf = NInf"

definition fsub :: "pyfloat \<Rightarrow> pyfloat \<Rightarrow> pyfloat" where
  "fsub a b = fadd a (fneg b)"

fun inf_times :: "pyfloat \<Rightarrow> real \<Rightarrow> pyfloat" where
  "inf_times a x = (if x = 0 then NaN else if 0 < x then a else fneg a)"

fun fmul :: "pyfloat \<Rightarrow> pyfloat \<Rightarrow> pyfloat" where
  "fmul NaN b = NaN"
| "fmul a NaN = NaN"
| "fmul (Fin x) (Fin y) = rnd (x * y)"
| "fmul (Fin x) b = inf_times b x"
| "fmul a (Fin y) = inf_times a y"
| "fmul PInf b = b"
| "fmul NInf b = fneg b"

definition feq :: "pyfloat \<Rightarrow> pyfloat \<Rightarrow> bool" where
  "feq a b \<longleftrightarrow> a \<noteq> NaN \<and> b \<noteq> NaN \<and> a = b"

text \<open>
  \<open>pid\<close>, line 72, on floats: Python evaluates the sum from left to right. \<open>pid_in\<close>
  stands for the list \<open>self.pid_input\<close>.
\<close>

definition pid_float :: "pyfloat \<times> pyfloat \<times> pyfloat \<Rightarrow> pyfloat \<Rightarrow> pyfloat \<Rightarrow> pyfloat" where
  "pid_float pid_in error prev_error =
     fadd (fadd (fmul (fst pid_in) error)
                (fmul (fst (snd pid_in)) (fsub error prev_error)))
          (fmul (snd (snd pid_in)) (fsub error prev_error))"

text \<open>
  The gains of line 46: the literal \<open>0.1\<close> is the double nearest to one tenth, which is
  3602879701896397 / 2 ^ 55.
\<close>

definition double_0_1 :: pyfloat where
  "double_0_1 = Fin (3602879701896397 / 36028797018963968)"

definition pid_input_float :: "pyfloat \<times> pyfloat \<times> pyfloat" where
  "pid_input_float = (double_0_1, double_0_1, double_0_1)"

section \<open>pidTracker/action\_server.py: the CONNECT callback\<close>

text \<open>
  What one iteration of the loop of \<open>execute_init_cb\<close> reads from its environment: the clock
  (\<open>time.time()\<close>, line 101), the preempt flag of the action server (line 103) and what the
  call \<open>connect_uav()\<close> does (line 112; the function is imported from
  \<open>ros_atlas.utils.uav_utils\<close>). \<open>StreamonRaises\<close> is a vehicle whose \<open>streamon()\<close> raises.
\<close>

datatype connect_result = Raises | ReturnsNone | ReturnsUav | StreamonRaises

record poll =
  now :: real
  is_preempt_requested :: bool
  connect_uav :: connect_result

text \<open>What the callback does to the outside, in order.\<close>

datatype init_event =
    SetPreempted | SetAborted | SetSucceeded
  | ConnectAttempt | Streamon | LogEstablished | PrintTryingAgain

text \<open>
  How the callback ends: it returns, it raises, or it is still in its loop when the
  given polls are used up.
\<close>

datatype ending = Returned | Raised exn | Looping

text \<open>
  \<open>execute_init_cb\<close>, lines 98 to 120, with \<open>start_time\<close> the clock value of line 98.
  Lines 104 and 109 format \<open>self._action_name\<close> before they call \<open>set_preempted()\<close> and
  \<open>set_aborted()\<close>. No line of the class assigns that attribute (the constructor stores
  its argument as \<open>app_name\<close>), so both lines raise \<open>AttributeError\<close> and the call after
  them is not reached. An exception inside the \<open>try\<close> block is printed and raised again
  (lines 119 and 120). A \<open>connect_uav()\<close> that returns \<open>None\<close> leaves \<open>_uav\<close> at \<open>None\<close> and
  the loop makes its next iteration.
\<close>

fun execute_init_cb ::
  "real \<Rightarrow> poll list \<Rightarrow> PIDActionServer \<Rightarrow> init_event list \<times> ending \<times> PIDActionServer" where
  "execute_init_cb start_time [] s =
     (if uav s = None then ([], Looping, s) else ([], Returned, s))"
| "execute_init_cb start_time (p # ps) s =
     (if uav s \<noteq> None then ([], Returned, s)
      else if is_preempt_requested p then ([], Raised AttributeError, s)
      else if now p - start_time > 30 then ([], Raised AttributeError, s)
      else case connect_uav p of
             Raises \<Rightarrow> ([ConnectAttempt, PrintTryingAgain], Raised ConnectError, s)
           | ReturnsNone \<Rightarrow>
               (case execute_init_cb start_time ps s of
                  (evs, r) \<Rightarrow> (ConnectAttempt # evs, r))
           | ReturnsUav \<Rightarrow>
               ([ConnectAttempt, Streamon, LogEstablished, SetSucceeded], Returned,
                s\<lparr> uav := Some Tello \<rparr>)
           | StreamonRaises \<Rightarrow>
               ([ConnectAttempt, Streamon, PrintTryingAgain], Raised ConnectError,
                s\<lparr> uav := Some Tello \<rparr>))"

text \<open>Concrete polls: a pending preempt after the deadline, and a failing first attempt.\<close>

definition preempt_late_poll :: poll where
  "preempt_late_poll = \<lparr> now = 31, is_preempt_requested = True, connect_uav = ReturnsNone \<rparr>"

definition failing_poll :: poll where
  "failing_poll = \<lparr> now = 1, is_preempt_requested = False, connect_uav = Raises \<rparr>"

definition success_poll :: poll where
  "success_poll = \<lparr> now = 2, is_preempt_requested = False, connect_uav = ReturnsUav \<rparr>"

section \<open>pidTracker/action\_client.py: the concurrent container\<close>

datatype outcome = succeeded | aborted | preempted

text \<open>
  The library class \<open>smach.Concurrence\<close> is not part of the repository. Its rule for the
  container's outcome is: start from \<open>default_outcome\<close>; an entry of \<open>outcome_map\<close> gives its
  container outcome when every child that the entry lists has ended with the outcome
  listed for it. \<open>child_outcomes\<close> maps the label of each child to the outcome it ended
  with.
\<close>

definition entry_holds :: "(string \<rightharpoonup> outcome) \<Rightarrow> (string \<times> outcome) list \<Rightarrow> bool" where
  "entry_holds child_outcomes outcomes =
     list_all (\<lambda>(label, oc). child_outcomes label = Some oc) outcomes"

definition concurrence_outcome ::
  "outcome \<Rightarrow> (outcome \<times> (string \<times> outcome) list) list \<Rightarrow> (string \<rightharpoonup> outcome) \<Rightarrow> outcome" where
  "concurrence_outcome default_outcome outcome_map child_outcomes =
     foldl (\<lambda>result (container_outcome, outcomes).
              if entry_holds child_outcomes outcomes then container_outcome else result)
           default_outcome outcome_map"

text \<open>
  \<open>sm_concurrent\<close>, lines 27 to 29 and 45 to 47: the default outcome is \<open>succeeded\<close>, the
  outcome map has the one entry \<open>'aborted': {'PUBLISH': 'aborted'}\<close>, and the children are
  \<open>PUBLISH\<close> and \<open>CONTROL_MOTOR\<close>.
\<close>

definition sm_concurrent :: "outcome \<Rightarrow> outcome \<Rightarrow> outcome" where
  "sm_concurrent publish control_motor =
     concurrence_outcome succeeded
       [(aborted, [(''PUBLISH'', aborted)])]
       [''PUBLISH'' \<mapsto> publish, ''CONTROL_MOTOR'' \<mapsto> control_motor]"

section \<open>hifly\_base/BaseInference.py: the frame queue\<close>

text \<open>
  Python's \<open>queue.Queue\<close>: the bound and the items, oldest first. \<open>full()\<close> is
  \<open>0 < maxsize <= qsize()\<close>. \<open>put\<close> waits while the queue is full and \<open>get\<close> waits while
  it is empty; inside one callback nothing else changes the queue, so such a call
  does not return, which is the value \<open>None\<close>.
\<close>

record 'a Queue =
  maxsize :: int
  items :: "'a list"

definition Queue_new :: "int \<Rightarrow> 'a Queue" where
  "Queue_new n = \<lparr> maxsize = n, items = [] \<rparr>"

definition Queue_full :: "'a Queue \<Rightarrow> bool" where
  "Queue_full q \<longleftrightarrow> 0 < maxsize q \<and> maxsize q \<le> int (length (items q))"

definition Queue_empty :: "'a Queue \<Rightarrow> bool" where
  "Queue_empty q \<longleftrightarrow> items q = []"

definition Queue_put :: "'a \<Rightarrow> 'a Queue \<Rightarrow> 'a Queue option" where
  "Queue_put x q = (if Queue_full q then None else Some (q\<lparr> items := items q @ [x] \<rparr>))"

definition Queue_get :: "'a Queue \<Rightarrow> ('a \<times> 'a Queue) option" where
  "Queue_get q = (case items q of [] \<Rightarrow> None | x # xs \<Rightarrow> Some (x, q\<lparr> items := xs \<rparr>))"

text \<open>
  An incoming image message: its time stamp and what \<open>CvBridge().imgmsg_to_cv2\<close> makes of
  it (an image, or an exception).
\<close>

record 'i imgmsg =
  stamp :: real
  imgmsg_to_cv2 :: "exn + 'i"

text \<open>The node: \<open>__init__\<close>, line 40, creates \<open>image_queue = Queue(maxsize=5)\<close>.\<close>

record 'i BaseInferenceNode =
  image_queue :: "('i \<times> real) Queue"

definition init_node :: "'i BaseInferenceNode" where
  "init_node = \<lparr> image_queue = Queue_new 5 \<rparr>"

text \<open>\<open>image_callback\<close>, lines 79 to 85.\<close>

definition image_callback ::
  "'i imgmsg \<Rightarrow> 'i BaseInferenceNode \<Rightarrow> (exn + 'i BaseInferenceNode) option" where
  "image_callback msg self =
     (case imgmsg_to_cv2 msg of
        Inl err \<Rightarrow> Some (Inl err)
      | Inr rgb_img \<Rightarrow>
          if \<not> Queue_full (image_queue self)
          then (case Queue_put (rgb_img, stamp msg) (image_queue self) of
                  None \<Rightarrow> None
                | Some q \<Rightarrow> Some (Inr (self\<lparr> image_queue := q \<rparr>)))
          else Some (Inr self))"

text \<open>
  One iteration of the loop of \<open>run\<close>, lines 96 to 110: when the queue is not empty the
  oldest pair is taken and its image goes to the model; the result is that image, if
  any, and the node.
\<close>

definition run_iteration :: "'i BaseInferenceNode \<Rightarrow> ('i option \<times> 'i BaseInferenceNode) option" where
  "run_iteration self =
     (if \<not> Queue_empty (image_queue self)
      then (case Queue_get (image_queue self) of
              None \<Rightarrow> None
            | Some ((img, _), q) \<Rightarrow> Some (Some img, self\<lparr> image_queue := q \<rparr>))
      else Some (None, self))"

text \<open>
  A run of the node is a sequence of arriving messages and consumer iterations. Beside
  the node it yields what happened at each step: the image was put into the queue, it
  was dropped because the queue was full, the conversion failed, the consumer took an
  image, or the consumer found the queue empty. A callback that raised leaves the node
  as it was.
\<close>

datatype 'i event = Arrive "'i imgmsg" | Consume

datatype 'i observation = Enqueued 'i | Dropped 'i | Failed exn | Handed 'i | Idle

definition arrival :: "'i imgmsg \<Rightarrow> 'i BaseInferenceNode \<Rightarrow> 'i observation" where
  "arrival msg self =
     (case imgmsg_to_cv2 msg of
        Inl err \<Rightarrow> Failed err
      | Inr rgb_img \<Rightarrow> if Queue_full (image_queue self) then Dropped rgb_img else Enqueued rgb_img)"

fun node_run ::
  "'i event list \<Rightarrow> 'i BaseInferenceNode \<Rightarrow> ('i observation list \<times> 'i BaseInferenceNode) option" where
  "node_run [] self = Some ([], self)"
| "node_run (Arrive msg # es) self =
     (case image_callback msg self of
        None \<Rightarrow> None
      | Some r \<Rightarrow>
          (case node_run es (case r of Inl err \<Rightarrow> self | Inr self' \<Rightarrow> self') of
             None \<Rightarrow> None
           | Some (tr, n) \<Rightarrow> Some (arrival msg self # tr, n)))"
| "node_run (Consume # es) self =
     (case run_iteration self of
        None \<Rightarrow> None
      | Some (got, self') \<Rightarrow>
          (case node_run es self' of
             None \<Rightarrow> None
           | Some (tr, n) \<Rightarrow> Some ((case got of None \<Rightarrow> Idle | Some img \<Rightarrow> Handed img) # tr, n)))"

fun enqueued :: "'i observation list \<Rightarrow> 'i list" where
  "enqueued [] = []"
| "enqueued (Enqueued x # tr) = x # enqueued tr"
| "enqueued (_ # tr) = enqueued tr"

fun dropped :: "'i observation list \<Rightarrow> 'i list" where
  "dropped [] = []"
| "dropped (Dropped x # tr) = x # dropped tr"
| "dropped (_ # tr) = dropped tr"

fun handed :: "'i observation list \<Rightarrow> 'i list" where
  "handed [] = []"
| "handed (Handed x # tr) = x # handed tr"
| "handed (_ # tr) = handed tr"

text \<open>The images of the messages of a run whose conversion succeeds, in arrival order.\<close>

fun arrived :: "'i event list \<Rightarrow> 'i list" where
  "arrived [] = []"
| "arrived (Arrive msg # es) =
     (case imgmsg_to_cv2 msg of Inl err \<Rightarrow> arrived es | Inr rgb_img \<Rightarrow> rgb_img # arrived es)"
| "arrived (Consume # es) = arrived es"

text \<open>
  A node whose queue has a positive bound and respects it, and the images waiting in
  its queue, oldest first.
\<close>

definition bounded :: "'i BaseInferenceNode \<Rightarrow> bool" where
  "bounded self \<longleftrightarrow>
     0 < maxsize (image_queue self)
     \<and> int (length (items (image_queue self))) \<le> maxsize (image_queue self)"

definition waiting :: "'i BaseInferenceNode \<Rightarrow> 'i list" where
  "waiting self = map fst (items (image_queue self))"

text \<open>A concrete run: seven images arrive, then the consumer runs seven times.\<close>

definition frame :: "nat \<Rightarrow> nat imgmsg" where
  "frame k = \<lparr> stamp = of_nat k, imgmsg_to_cv2 = Inr k \<rparr>"

definition burst :: "nat event list" where
  "burst = map (\<lambda>k. Arrive (frame k)) [1, 2, 3, 4, 5, 6, 7]
             @ [Consume, Consume, Consume, Consume, Consume, Consume, Consume]"

section \<open>Helper facts about the tick\<close>

lemma py_int_bounds:
  assumes "of_int lo \<le> v" and "v \<le> of_int hi" and "lo \<le> 0" and "0 \<le> hi"
  shows "lo \<le> py_int v \<and> py_int v \<le> hi"
proof (cases "0 \<le> v")
  case True
  have "0 \<le> \<lfloor>v\<rfloor>" using True by simp
  moreover have "\<lfloor>v\<rfloor> \<le> hi" using assms(2) by (simp add: floor_le_iff)
  moreover have "py_int v = \<lfloor>v\<rfloor>" using True by (simp add: py_int_def)
  ultimately show ?thesis using assms(3) by linarith
next
  case False
  have "\<lceil>v\<rceil> \<le> 0" using False by (simp add: ceiling_le_iff)
  moreover have "lo \<le> \<lceil>v\<rceil>" using assms(1) by (simp add: le_ceiling_iff)
  moreover have "py_int v = \<lceil>v\<rceil>" using False by (simp add: py_int_def)
  ultimately show ?thesis using assms(4) by linarith
qed

lemma clip_bounds: "lo \<le> hi \<Longrightarrow> lo \<le> clip v lo hi \<and> clip v lo hi \<le> hi"
  by (simp add: clip_def)

lemma track_state_simps:
  "x_err track_state = 20" "y_err track_state = 60"
  "prev_x_err track_state = 0" "prev_y_err track_state = 0"
  "area track_state = Some 50000" "is_search track_state = False"
  "setpoint_area track_state = (20000, 100000)"
  "pid_input track_state = (1 / 10, 1 / 10, 1 / 10)"
  by (simp_all add: track_state_def process_var_sub_cb_def seen_msg_def init_server_def)

lemma edge_state_simps:
  "x_err edge_state = 0" "y_err edge_state = 0"
  "area edge_state = Some 20000" "is_search edge_state = False"
  "setpoint_area edge_state = (20000, 100000)"
  by (simp_all add: edge_state_def process_var_sub_cb_def edge_msg_def init_server_def)

lemma far_state_simps:
  "x_err far_state = 1000000000" "y_err far_state = 1000000000"
  "prev_x_err far_state = 0" "prev_y_err far_state = 0"
  "area far_state = Some 50000" "is_search far_state = False"
  "setpoint_area far_state = (20000, 100000)"
  "pid_input far_state = (1 / 10, 1 / 10, 1 / 10)"
  by (simp_all add: far_state_def process_var_sub_cb_def far_msg_def init_server_def)

text \<open>The tick writes no attribute, and it returns as soon as \<open>_area\<close> exists.\<close>

lemma execute_track_tick_state:
  "execute_track_tick s = Inr (s', c) \<Longrightarrow> s' = s"
  by (auto simp: execute_track_tick_def Let_def split: option.splits)

lemma execute_track_tick_returns:
  "area s = Some a \<Longrightarrow> \<exists>c. execute_track_tick s = Inr (s, c)"
  by (simp add: execute_track_tick_def Let_def)

lemma track_state_tick:
  "execute_track_tick track_state
     = Inr (track_state, \<lparr> left_right = 0, forward_backward = 0, up_down = 50, yaw = 6 \<rparr>)"
  by (simp add: execute_track_tick_def Let_def track_state_simps pid_def clip_def py_int_def)

lemma far_state_tick:
  "execute_track_tick far_state
     = Inr (far_state, \<lparr> left_right = 0, forward_backward = 0, up_down = 50, yaw = 100 \<rparr>)"
  by (simp add: execute_track_tick_def Let_def far_state_simps pid_def clip_def py_int_def)


section \<open>Helper facts about runs of the two threads\<close>

text \<open>The steps of the two threads, one equation for each line.\<close>

lemma sub_step_simps:
  "subscriber t = NoCall \<Longrightarrow> sub_step t = t"
  "subscriber t = Line83 msg \<Longrightarrow>
     sub_step t = t\<lparr> subscriber := (if msg_area msg = 0 then Line84 else Line89 msg) \<rparr>"
  "subscriber t = Line84 \<Longrightarrow>
     sub_step t = t\<lparr> server := (server t)\<lparr> is_search := True \<rparr>, subscriber := Line85 \<rparr>"
  "subscriber t = Line85 \<Longrightarrow>
     sub_step t = t\<lparr> server := (server t)\<lparr> x_err := prev_x_err (server t) \<rparr>,
                     subscriber := Line86 \<rparr>"
  "subscriber t = Line86 \<Longrightarrow>
     sub_step t = t\<lparr> server := (server t)\<lparr> y_err := prev_y_err (server t) \<rparr>,
                     subscriber := NoCall \<rparr>"
  "subscriber t = Line89 msg \<Longrightarrow>
     sub_step t = t\<lparr> server := (server t)\<lparr> is_search := False \<rparr>, subscriber := Line90 msg \<rparr>"
  "subscriber t = Line90 msg \<Longrightarrow>
     sub_step t = t\<lparr> server := (server t)\<lparr> area := Some (msg_area msg) \<rparr>,
                     subscriber := Line91 msg \<rparr>"
  "subscriber t = Line91 msg \<Longrightarrow>
     sub_step t = t\<lparr> server := (server t)\<lparr> x_err := msg_cx msg - fst (setpoint_center (server t)) \<rparr>,
                     subscriber := Line92 msg \<rparr>"
  "subscriber t = Line92 msg \<Longrightarrow>
     sub_step t = t\<lparr> server := (server t)\<lparr> y_err := snd (setpoint_center (server t)) - msg_cy msg \<rparr>,
                     subscriber := NoCall \<rparr>"
  by (simp_all add: sub_step_def)

lemma tracked_by_mono: "tracked_by M t \<Longrightarrow> M \<subseteq> M' \<Longrightarrow> tracked_by M' t"
  unfolding tracked_by_def by (auto split: option.splits)


lemma deliver_tracked: "tracked_by M t \<Longrightarrow> tracked_by (insert msg M) (deliver msg t)"
proof (cases "subscriber t = NoCall")
  case True
  assume "tracked_by M t"
  with True show ?thesis
    unfolding tracked_by_def deliver_def by (auto split: option.splits)
next
  case False
  assume "tracked_by M t"
  then have "tracked_by (insert msg M) t" by (rule tracked_by_mono) auto
  with False show ?thesis by (simp add: deliver_def)
qed

lemma sub_step_tracked:
  assumes "tracked_by M t"
  shows "tracked_by M (sub_step t)"
proof (cases "subscriber t")
  case NoCall
  with assms show ?thesis by (simp add: sub_step_simps)
next
  case (Line83 msg)
  with assms show ?thesis
    by (auto simp: sub_step_simps(2) tracked_by_def split: option.splits)
next
  case Line84
  with assms show ?thesis
    by (auto simp: sub_step_simps(3) tracked_by_def split: option.splits)
next
  case Line85
  with assms show ?thesis
    by (auto simp: sub_step_simps(4) tracked_by_def split: option.splits)
next
  case Line86
  with assms show ?thesis
    by (auto simp: sub_step_simps(5) tracked_by_def split: option.splits)
next
  case (Line89 msg)
  with assms show ?thesis
    by (auto simp: sub_step_simps(6) tracked_by_def split: option.splits)
next
  case (Line90 msg)
  with assms show ?thesis
    by (auto simp: sub_step_simps(7) tracked_by_def split: option.splits)
next
  case (Line91 msg)
  with assms show ?thesis
    by (auto simp: sub_step_simps(8) tracked_by_def split: option.splits)
next
  case (Line92 msg)
  with assms show ?thesis
    by (auto simp: sub_step_simps(9) tracked_by_def split: option.splits)
qed


lemma ctl_step_simps:
  "controller t = Line207 \<Longrightarrow>
     ctl_step t = Inr (t\<lparr> controller := (if is_search (server t) then Line152 else Line159) \<rparr>)"
  "controller t = Line152 \<Longrightarrow>
     ctl_step t = Inr (t\<lparr> controller := (if is_search (server t) then Line152 else Line207) \<rparr>)"
  "controller t = Line159 \<Longrightarrow>
     ctl_step t = Inr (t\<lparr> controller := (if \<not> is_search (server t) then Line160 else Line207) \<rparr>)"
  "controller t = Line160 \<Longrightarrow>
     ctl_step t = (case execute_track_tick (server t) of
                     Inl e \<Rightarrow> Inl e
                   | Inr (s', c) \<Rightarrow> Inr (t\<lparr> server := s', controller := Line159 \<rparr>))"
  by (simp_all add: ctl_step_def)

lemma ctl_step_body:
  assumes "controller t = Line160" and "ctl_step t = Inr t'"
  shows "area (server t) \<noteq> None \<and> t' = t\<lparr> controller := Line159 \<rparr>"
proof -
  from assms obtain s' c where e: "execute_track_tick (server t) = Inr (s', c)"
    and t': "t' = t\<lparr> server := s', controller := Line159 \<rparr>"
    by (auto simp: ctl_step_simps(4) split: sum.splits)
  from e have "s' = server t" by (rule execute_track_tick_state)
  moreover from e have "area (server t) \<noteq> None"
    by (auto simp: execute_track_tick_def Let_def split: option.splits)
  ultimately show ?thesis using t' by simp
qed

lemma ctl_step_tracked:
  assumes "tracked_by M t" and "ctl_step t = Inr t'"
  shows "tracked_by M t'"
proof (cases "controller t")
  case Line207
  with assms show ?thesis
    by (auto simp: ctl_step_simps(1) tracked_by_def split: option.splits)
next
  case Line152
  with assms show ?thesis
    by (auto simp: ctl_step_simps(2) tracked_by_def split: option.splits)
next
  case Line159
  with assms show ?thesis
    by (auto simp: ctl_step_simps(3) tracked_by_def split: option.splits)
next
  case Line160
  from ctl_step_body [OF this assms(2)] assms(1) show ?thesis
    by (auto simp: tracked_by_def split: option.splits)
qed

lemma delivered_Cons:
  "delivered (Deliver msg # steps) = insert msg (delivered steps)"
  "delivered (SubStep # steps) = delivered steps"
  "delivered (CtlStep # steps) = delivered steps"
  by (auto simp: delivered_def)

text \<open>Every run keeps the invariant.\<close>

lemma run_threads_tracked:
  "tracked_by M t \<Longrightarrow> run_threads steps t = Inr t' \<Longrightarrow> tracked_by (M \<union> delivered steps) t'"
proof (induction steps arbitrary: t M)
  case Nil
  then show ?case by (simp add: delivered_def)
next
  case (Cons step steps)
  show ?case
  proof (cases step)
    case (Deliver msg)
    from Cons.prems(1) have "tracked_by (insert msg M) (deliver msg t)"
      by (rule deliver_tracked)
    moreover from Cons.prems(2) Deliver have "run_threads steps (deliver msg t) = Inr t'"
      by simp
    ultimately have "tracked_by (insert msg M \<union> delivered steps) t'"
      by (rule Cons.IH)
    with Deliver show ?thesis by (simp add: delivered_Cons)
  next
    case SubStep
    from Cons.prems(1) have "tracked_by M (sub_step t)"
      by (rule sub_step_tracked)
    moreover from Cons.prems(2) SubStep have "run_threads steps (sub_step t) = Inr t'"
      by simp
    ultimately have "tracked_by (M \<union> delivered steps) t'"
      by (rule Cons.IH)
    with SubStep show ?thesis by (simp add: delivered_Cons)
  next
    case CtlStep
    with Cons.prems(2) obtain t1
      where c: "ctl_step t = Inr t1" and r: "run_threads steps t1 = Inr t'"
      by (auto split: sum.splits)
    from Cons.prems(1) c have "tracked_by M t1"
      by (rule ctl_step_tracked)
    from this r have "tracked_by (M \<union> delivered steps) t'"
      by (rule Cons.IH)
    with CtlStep show ?thesis by (simp add: delivered_Cons)
  qed
qed

lemma init_threads_tracked: "tracked_by {} init_threads"
  by (simp add: tracked_by_def init_threads_def init_server_def)

text \<open>
  A callback that runs from its first line to its last without a step of the action
  thread in between does what \<open>process_var_sub_cb\<close> does.
\<close>

lemma whole_callback:
  assumes "subscriber t = NoCall"
  shows "run_threads [Deliver msg, SubStep, SubStep, SubStep, SubStep, SubStep] t
           = Inr (t\<lparr> server := process_var_sub_cb msg (server t) \<rparr>)"
proof -
  have t: "t\<lparr> subscriber := NoCall \<rparr> = t" using assms by simp
  show ?thesis
  proof (cases "msg_area msg = 0")
    case True
    have "run_threads [Deliver msg, SubStep, SubStep, SubStep, SubStep, SubStep] t
            = Inr (t\<lparr> server := process_var_sub_cb msg (server t), subscriber := NoCall \<rparr>)"
      using assms True by (simp add: deliver_def sub_step_def process_var_sub_cb_def)
    also have "t\<lparr> server := process_var_sub_cb msg (server t), subscriber := NoCall \<rparr>
                 = (t\<lparr> subscriber := NoCall \<rparr>)\<lparr> server := process_var_sub_cb msg (server t) \<rparr>"
      by simp
    finally show ?thesis by (simp only: t)
  next
    case False
    have "run_threads [Deliver msg, SubStep, SubStep, SubStep, SubStep, SubStep] t
            = Inr (t\<lparr> server := process_var_sub_cb msg (server t), subscriber := NoCall \<rparr>)"
      using assms False by (simp add: deliver_def sub_step_def process_var_sub_cb_def)
    also have "t\<lparr> server := process_var_sub_cb msg (server t), subscriber := NoCall \<rparr>
                 = (t\<lparr> subscriber := NoCall \<rparr>)\<lparr> server := process_var_sub_cb msg (server t) \<rparr>"
      by simp
    finally show ?thesis by (simp only: t)
  qed
qed

text \<open>
  No step of either thread assigns \<open>_prev_x_err\<close> or \<open>_prev_y_err\<close>: after every run they
  have the values they started with, which is 0 for a run from the initial state.
\<close>

lemma sub_step_prev_errors:
  "prev_x_err (server (sub_step t)) = prev_x_err (server t)
   \<and> prev_y_err (server (sub_step t)) = prev_y_err (server t)"
  by (cases "subscriber t") (simp_all add: sub_step_simps)

lemma ctl_step_prev_errors:
  assumes "ctl_step t = Inr t'"
  shows "prev_x_err (server t') = prev_x_err (server t)
         \<and> prev_y_err (server t') = prev_y_err (server t)"
proof (cases "controller t")
  case Line160
  from ctl_step_body [OF this assms] show ?thesis by simp
qed (use assms in \<open>auto simp: ctl_step_simps\<close>)

lemma run_threads_prev_errors:
  "run_threads steps t = Inr t' \<Longrightarrow>
     prev_x_err (server t') = prev_x_err (server t) \<and> prev_y_err (server t') = prev_y_err (server t)"
proof (induction steps arbitrary: t)
  case Nil
  then show ?case by simp
next
  case (Cons step steps)
  show ?case
  proof (cases step)
    case (Deliver msg)
    with Cons.prems have "run_threads steps (deliver msg t) = Inr t'" by simp
    from Cons.IH [OF this] show ?thesis by (simp add: deliver_def)
  next
    case SubStep
    with Cons.prems have "run_threads steps (sub_step t) = Inr t'" by simp
    from Cons.IH [OF this] sub_step_prev_errors [of t] show ?thesis by simp
  next
    case CtlStep
    with Cons.prems obtain t1
      where c: "ctl_step t = Inr t1" and r: "run_threads steps t1 = Inr t'"
      by (auto split: sum.splits)
    from Cons.IH [OF r] ctl_step_prev_errors [OF c] show ?thesis by simp
  qed
qed

lemma reachable_prev_errors_zero:
  "run_threads steps init_threads = Inr t \<Longrightarrow>
     prev_x_err (server t) = 0 \<and> prev_y_err (server t) = 0"
  using run_threads_prev_errors [of steps init_threads t]
  by (simp add: init_threads_def init_server_def)

text \<open>The three concrete runs.\<close>

lemma run_threads_append:
  "run_threads (xs @ ys) t
     = (case run_threads xs t of Inl e \<Rightarrow> Inl e | Inr t' \<Rightarrow> run_threads ys t')"
proof (induction xs arbitrary: t)
  case Nil
  then show ?case by simp
next
  case (Cons step xs)
  then show ?case by (cases step) (simp_all split: sum.splits)
qed

lemma torn_state_tick:
  "area (init_server\<lparr> is_search := False \<rparr>) = None"
  "\<not> is_search (init_server\<lparr> is_search := False \<rparr>)"
  "execute_track_tick (init_server\<lparr> is_search := False \<rparr>) = Inl AttributeError"
  by (simp_all add: init_server_def execute_track_tick_def Let_def)

lemma whole_callback_run_result:
  "run_threads whole_callback_run init_threads
     = Inr \<lparr> server = track_state, subscriber = NoCall, controller = Line160 \<rparr>"
proof -
  have a: "run_threads [Deliver seen_msg, SubStep, SubStep, SubStep, SubStep, SubStep] init_threads
          = Inr (init_threads\<lparr> server := track_state \<rparr>)"
    using whole_callback [of init_threads seen_msg]
    by (simp add: init_threads_def track_state_def)
  have b: "run_threads [CtlStep, CtlStep] (init_threads\<lparr> server := track_state \<rparr>)
          = Inr \<lparr> server = track_state, subscriber = NoCall, controller = Line160 \<rparr>"
    by (simp add: ctl_step_def init_threads_def track_state_simps)
  have c: "whole_callback_run
          = [Deliver seen_msg, SubStep, SubStep, SubStep, SubStep, SubStep] @ [CtlStep, CtlStep]"
    by (simp add: whole_callback_run_def)
  show ?thesis by (simp only: c run_threads_append a sum.case b)
qed

lemma torn_callback_state:
  "run_threads [Deliver seen_msg, SubStep, SubStep] init_threads
     = Inr \<lparr> server = init_server\<lparr> is_search := False \<rparr>,
             subscriber = Line90 seen_msg, controller = Line207 \<rparr>"
  by (simp add: init_threads_def deliver_def sub_step_def seen_msg_def)

lemma torn_callback_run_result:
  "run_threads torn_callback_run init_threads = Inl AttributeError"
proof -
  have b: "run_threads [CtlStep, CtlStep, CtlStep]
          \<lparr> server = init_server\<lparr> is_search := False \<rparr>,
            subscriber = Line90 seen_msg, controller = Line207 \<rparr> = Inl AttributeError"
    by (simp add: ctl_step_def torn_state_tick)
  have c: "torn_callback_run
          = [Deliver seen_msg, SubStep, SubStep] @ [CtlStep, CtlStep, CtlStep]"
    by (simp add: torn_callback_run_def)
  show ?thesis by (simp only: c run_threads_append torn_callback_state sum.case b)
qed

lemma negative_area_run_result:
  "run_threads negative_area_run init_threads
     = Inr \<lparr> server = process_var_sub_cb neg_msg init_server,
             subscriber = NoCall, controller = Line207 \<rparr>"
  using whole_callback [of init_threads neg_msg]
  by (simp add: init_threads_def negative_area_run_def)

lemma negative_area_state:
  "\<not> is_search (process_var_sub_cb neg_msg init_server)"
  "area (process_var_sub_cb neg_msg init_server) = Some (- 5)"
  by (simp_all add: process_var_sub_cb_def neg_msg_def)

section \<open>Helper facts about the CONNECT callback\<close>

text \<open>
  With no preempt pending and the deadline not passed, an attempt that returns \<open>None\<close> is
  followed by the next iteration; nothing is logged for it.
\<close>

lemma connect_none_retried:
  assumes "uav s = None" and "\<not> is_preempt_requested p" and "now p - start_time \<le> 30"
    and "connect_uav p = ReturnsNone"
  shows "execute_init_cb start_time (p # ps) s
           = (ConnectAttempt # fst (execute_init_cb start_time ps s),
              snd (execute_init_cb start_time ps s))"
  using assms by (simp split: prod.splits)

text \<open>A pending preempt request, or a passed deadline, ends the callback by an exception.\<close>

lemma connect_preempt_raises:
  assumes "uav s = None" and "is_preempt_requested p"
  shows "execute_init_cb start_time (p # ps) s = ([], Raised AttributeError, s)"
  using assms by simp

lemma connect_deadline_raises:
  assumes "uav s = None" and "now p - start_time > 30"
  shows "execute_init_cb start_time (p # ps) s = ([], Raised AttributeError, s)"
  using assms by simp

section \<open>Helper facts about the frame queue\<close>

lemma image_callback_full:
  "Queue_full (image_queue self) \<Longrightarrow>
     image_callback msg self
       = Some (case imgmsg_to_cv2 msg of Inl err \<Rightarrow> Inl err | Inr rgb_img \<Rightarrow> Inr self)"
  by (simp add: image_callback_def split: sum.splits)

lemma image_callback_step:
  assumes "bounded self"
  shows "\<exists>r self'. image_callback msg self = Some r
           \<and> self' = (case r of Inl err \<Rightarrow> self | Inr n \<Rightarrow> n)
           \<and> bounded self'
           \<and> maxsize (image_queue self') = maxsize (image_queue self)
           \<and> waiting self' = waiting self @ enqueued [arrival msg self]
           \<and> set (enqueued [arrival msg self]) \<union> set (dropped [arrival msg self])
               = set (arrived [Arrive msg])
           \<and> handed [arrival msg self] = []"
  using assms
  by (auto simp: image_callback_def arrival_def bounded_def waiting_def Queue_put_def
        Queue_full_def split: sum.splits)

lemma run_iteration_step:
  assumes "bounded self"
  shows "\<exists>got self'. run_iteration self = Some (got, self')
           \<and> bounded self'
           \<and> maxsize (image_queue self') = maxsize (image_queue self)
           \<and> waiting self = (case got of None \<Rightarrow> [] | Some img \<Rightarrow> [img]) @ waiting self'"
  using assms
  by (auto simp: run_iteration_def bounded_def waiting_def Queue_get_def Queue_empty_def
        split: list.splits)

lemma enqueued_Cons: "enqueued (x # tr) = enqueued [x] @ enqueued tr"
  by (cases x) simp_all

lemma dropped_Cons: "dropped (x # tr) = dropped [x] @ dropped tr"
  by (cases x) simp_all

lemma handed_Cons: "handed (x # tr) = handed [x] @ handed tr"
  by (cases x) simp_all

lemma arrived_Cons: "arrived (e # es) = arrived [e] @ arrived es"
  by (cases e) (simp_all split: sum.splits)

text \<open>
  Every run of a bounded node goes through (no call waits for ever) and ends in a
  bounded node; the images waiting at the start followed by the enqueued ones are the
  images handed to the consumer followed by those still waiting; and every converted
  image is either enqueued or dropped.
\<close>

lemma node_run_bounded:
  assumes "bounded self"
  shows "\<exists>tr n. node_run es self = Some (tr, n)
           \<and> bounded n
           \<and> maxsize (image_queue n) = maxsize (image_queue self)
           \<and> waiting self @ enqueued tr = handed tr @ waiting n
           \<and> set (enqueued tr) \<union> set (dropped tr) = set (arrived es)
           \<and> (distinct (arrived es) \<longrightarrow> set (enqueued tr) \<inter> set (dropped tr) = {})"
  using assms
proof (induction es arbitrary: self)
  case Nil
  then show ?case by simp
next
  case (Cons e es)
  show ?case
  proof (cases e)
    case (Arrive msg)
    from image_callback_step [OF Cons.prems, of msg] obtain r self'
      where s: "image_callback msg self = Some r"
        "self' = (case r of Inl err \<Rightarrow> self | Inr n \<Rightarrow> n)"
        "bounded self'"
        "maxsize (image_queue self') = maxsize (image_queue self)"
        "waiting self' = waiting self @ enqueued [arrival msg self]"
        "set (enqueued [arrival msg self]) \<union> set (dropped [arrival msg self])
               = set (arrived [Arrive msg])"
        "handed [arrival msg self] = []"
      by blast
    from Cons.IH [OF s(3)] obtain tr n
      where r: "node_run es self' = Some (tr, n)" "bounded n"
        "maxsize (image_queue n) = maxsize (image_queue self')"
        "waiting self' @ enqueued tr = handed tr @ waiting n"
        "set (enqueued tr) \<union> set (dropped tr) = set (arrived es)"
        "distinct (arrived es) \<longrightarrow> set (enqueued tr) \<inter> set (dropped tr) = {}"
      by blast
    let ?tr = "arrival msg self # tr"
    have run: "node_run (e # es) self = Some (?tr, n)"
      using Arrive s(1,2) r(1) by simp
    have fifo: "waiting self @ enqueued ?tr = handed ?tr @ waiting n"
      using s(5,7) r(4) by (simp add: enqueued_Cons [of _ tr] handed_Cons [of _ tr])
    have part: "set (enqueued ?tr) \<union> set (dropped ?tr) = set (arrived (e # es))"
      using s(6) r(5) Arrive
      by (simp add: enqueued_Cons [of _ tr] dropped_Cons [of _ tr] arrived_Cons [of _ es]) blast
    have disj: "set (enqueued ?tr) \<inter> set (dropped ?tr) = {}" if d: "distinct (arrived (e # es))"
    proof -
      from d have d1: "distinct (arrived es)"
        and d2: "set (arrived [e]) \<inter> set (arrived es) = {}"
        by (simp_all add: arrived_Cons [of e es])
      from r(6) d1 have i: "set (enqueued tr) \<inter> set (dropped tr) = {}" by simp
      have one: "set (enqueued [arrival msg self]) \<inter> set (dropped [arrival msg self]) = {}"
        by (cases "arrival msg self") simp_all
      from s(6) Arrive have sub: "set (enqueued [arrival msg self]) \<subseteq> set (arrived [e])"
        "set (dropped [arrival msg self]) \<subseteq> set (arrived [e])" by auto
      from r(5) have sub2: "set (enqueued tr) \<subseteq> set (arrived es)"
        "set (dropped tr) \<subseteq> set (arrived es)"
        by auto
      show ?thesis
        using i one sub sub2 d2
        by (simp add: enqueued_Cons [of _ tr] dropped_Cons [of _ tr]) blast
    qed
    show ?thesis using run r(2,3) s(4) fifo part disj by simp
  next
    case Consume
    from run_iteration_step [OF Cons.prems] obtain got self'
      where s: "run_iteration self = Some (got, self')"
        "bounded self'"
        "maxsize (image_queue self') = maxsize (image_queue self)"
        "waiting self = (case got of None \<Rightarrow> [] | Some img \<Rightarrow> [img]) @ waiting self'"
      by blast
    from Cons.IH [OF s(2)] obtain tr n
      where r: "node_run es self' = Some (tr, n)" "bounded n"
        "maxsize (image_queue n) = maxsize (image_queue self')"
        "waiting self' @ enqueued tr = handed tr @ waiting n"
        "set (enqueued tr) \<union> set (dropped tr) = set (arrived es)"
        "distinct (arrived es) \<longrightarrow> set (enqueued tr) \<inter> set (dropped tr) = {}"
      by blast
    let ?o = "case got of None \<Rightarrow> Idle | Some img \<Rightarrow> Handed img"
    have run: "node_run (e # es) self = Some (?o # tr, n)"
      using Consume s(1) r(1) by simp
    have fifo: "waiting self @ enqueued (?o # tr) = handed (?o # tr) @ waiting n"
      using s(4) r(4) by (cases got) simp_all
    have same: "enqueued (?o # tr) = enqueued tr" "dropped (?o # tr) = dropped tr"
      by (cases got; simp)+
    show ?thesis using run r(2,3,5,6) s(3) fifo same Consume by simp
  qed
qed

section \<open>Helper facts about floats\<close>

lemma binade_from_spec:
  "e \<le> binade_from k e x \<and> binade_from k e x \<le> e + int k
   \<and> (binade_from k e x = e \<or> 2 powi (binade_from k e x) \<le> \<bar>x\<bar>)
   \<and> (binade_from k e x < e + int k \<longrightarrow> \<bar>x\<bar> < 2 powi (binade_from k e x + 1))"
proof (induction k arbitrary: e)
  case 0
  then show ?case by simp
next
  case (Suc k)
  show ?case
  proof (cases "\<bar>x\<bar> < 2 powi (e + 1)")
    case True
    then show ?thesis by simp
  next
    case False
    from Suc [of "e + 1"] False show ?thesis by auto
  qed
qed

lemma binade_spec:
  "- 1022 \<le> binade x" "binade x \<le> 1024"
  "binade x = - 1022 \<or> 2 powi (binade x) \<le> \<bar>x\<bar>"
  "binade x < 1024 \<Longrightarrow> \<bar>x\<bar> < 2 powi (binade x + 1)"
  using binade_from_spec [of "- 1022" 2046 x] by (simp_all add: binade_def)

lemma round_half_even_of_int [simp]: "round_half_even (of_int n) = n"
  by (simp add: round_half_even_def)

lemma round_half_even_bounds:
  "\<lfloor>r\<rfloor> \<le> round_half_even r" "round_half_even r \<le> \<lceil>r\<rceil>"
  by (auto simp: round_half_even_def Let_def ceiling_altdef)

lemma round_half_even_near: "\<bar>of_int (round_half_even r) - r\<bar> \<le> 1 / 2"
  unfolding round_half_even_def Let_def by (auto; linarith)


lemma pow2_less_cancel: "(2::real) powi a < 2 powi b \<Longrightarrow> a < b"
proof (rule ccontr)
  assume l: "(2::real) powi a < 2 powi b" and "\<not> a < b"
  then have "b \<le> a" by simp
  then have "(2::real) powi b \<le> 2 powi a" by (intro power_int_increasing) simp_all
  with l show False by simp
qed

lemma pow2_split:
  assumes "u \<le> e"
  shows "(2::real) powi e = 2 powi u * 2 ^ nat (e - u)"
proof -
  have "(2::real) powi (u + (e - u)) = 2 powi u * 2 powi (e - u)"
    by (rule power_int_add) simp
  moreover have "(2::real) powi (e - u) = 2 ^ nat (e - u)"
    using assms by (simp add: power_int_nonneg_exp)
  ultimately show ?thesis by simp
qed

lemma rnd_representable:
  assumes "representable y"
  shows "rnd y = Fin y"
proof -
  from assms obtain n e
    where ne: "\<bar>n\<bar> < 2 ^ 53" "- 1074 \<le> e" "e \<le> 971" "y = of_int n * 2 powi e"
    unfolding representable_def by blast
  define u where "u = binade y - 52"
  have absy: "\<bar>y\<bar> = of_int \<bar>n\<bar> * 2 powi e"
    using ne(4) by (simp add: abs_mult)
  have "(of_int \<bar>n\<bar> :: real) < 2 ^ 53"
    using ne(1) by (metis of_int_less_iff of_int_numeral of_int_power)
  then have "of_int \<bar>n\<bar> * 2 powi e < (2 ^ 53 :: real) * 2 powi e"
    by (intro mult_strict_right_mono) simp_all
  also have "\<dots> = 2 powi (53 + e)"
    by (simp add: power_int_add)
  finally have ylt: "\<bar>y\<bar> < 2 powi (53 + e)" using absy by simp
  have eu: "u \<le> e"
  proof (rule ccontr)
    assume "\<not> u \<le> e"
    then have lt: "e < u" by simp
    with ne(2) have "binade y \<noteq> - 1022" by (simp add: u_def)
    with binade_spec(3) [of y] have "2 powi (binade y) \<le> \<bar>y\<bar>" by blast
    with ylt have "(2::real) powi (binade y) < 2 powi (53 + e)" by simp
    then have "binade y < 53 + e" by (rule pow2_less_cancel)
    with lt show False by (simp add: u_def)
  qed
  define m where "m = n * 2 ^ nat (e - u)"
  have y_m: "y = of_int m * 2 powi u"
    using ne(4) pow2_split [OF eu] by (simp add: m_def)
  then have q: "y / 2 powi u = of_int m" by simp
  have "(2::real) powi (53 + e) \<le> 2 powi 1024"
    using ne(3) by (intro power_int_increasing) simp_all
  with ylt have "\<bar>y\<bar> < 2 powi 1024" by simp
  then have b: "\<not> 2 powi 1024 \<le> y" "\<not> y \<le> - (2 powi 1024)" by linarith+
  show ?thesis
    using b y_m q unfolding rnd_def Let_def u_def [symmetric] by simp
qed

lemma rnd_cases:
  obtains (fin) y where "rnd x = Fin y" "representable y" | (pinf) "rnd x = PInf" | (ninf) "rnd x = NInf"
proof -
  define u where "u = binade x - 52"
  define r where "r = x / 2 powi u"
  define N where "N = round_half_even r"
  define y :: real where "y = of_int N * 2 powi u"
  have rn: "rnd x = (if 2 powi 1024 \<le> y then PInf else if y \<le> - (2 powi 1024) then NInf else Fin y)"
    unfolding rnd_def Let_def u_def [symmetric] r_def [symmetric] N_def [symmetric] y_def [symmetric] ..
  show thesis
  proof (cases "\<bar>y\<bar> < 2 powi 1024")
    case False
    then have "2 powi 1024 \<le> y \<or> y \<le> - (2 powi 1024)" by linarith
    with rn have "rnd x = PInf \<or> rnd x = NInf" by auto
    then show thesis using pinf ninf by blast
  next
    case True
    then have "\<not> 2 powi 1024 \<le> y" "\<not> y \<le> - (2 powi 1024)" by linarith+
    then have f: "rnd x = Fin y" using rn by simp
    have absy: "\<bar>y\<bar> = of_int \<bar>N\<bar> * 2 powi u" by (simp add: y_def abs_mult)
    have absr: "\<bar>r\<bar> = \<bar>x\<bar> / 2 powi u" by (simp add: r_def)
    have u_lo: "- 1074 \<le> u" using binade_spec(1) [of x] by (simp add: u_def)
    have N_lo: "\<lfloor>r\<rfloor> \<le> N" and N_hi: "N \<le> \<lceil>r\<rceil>"
      using round_half_even_bounds by (simp_all add: N_def)
    have lt: "binade x < 1024"
    proof (rule ccontr)
      assume "\<not> binade x < 1024"
      with binade_spec(2) [of x] have b: "binade x = 1024" by simp
      with binade_spec(3) [of x] have "2 powi 1024 \<le> \<bar>x\<bar>" by simp
      moreover have p: "(2::real) powi 1024 = 2 ^ 52 * 2 powi u"
        using b by (simp add: u_def)
      ultimately have "2 ^ 52 * 2 powi u \<le> \<bar>x\<bar>" by simp
      then have "2 ^ 52 \<le> \<bar>x\<bar> / 2 powi u" by (simp add: pos_le_divide_eq)
      then have big: "2 ^ 52 \<le> \<bar>r\<bar>" using absr by simp
      have "2 ^ 52 \<le> \<bar>N\<bar>"
      proof (cases "0 \<le> r")
        case True
        with big have "(of_int (2 ^ 52) :: real) \<le> r" by simp
        then have "2 ^ 52 \<le> \<lfloor>r\<rfloor>" by (simp only: le_floor_iff)
        with N_lo show ?thesis by linarith
      next
        case False
        with big have "r \<le> (of_int (- (2 ^ 52)) :: real)" by simp
        then have "\<lceil>r\<rceil> \<le> - (2 ^ 52)" by (simp only: ceiling_le_iff)
        with N_hi show ?thesis by linarith
      qed
      then have "(of_int (2 ^ 52) :: real) \<le> of_int \<bar>N\<bar>"
        by (simp only: of_int_le_iff)
      then have "(2 ^ 52 :: real) \<le> of_int \<bar>N\<bar>" by simp
      then have "2 ^ 52 * 2 powi u \<le> of_int \<bar>N\<bar> * (2::real) powi u"
        by (intro mult_right_mono) simp_all
      with absy p True show False by simp
    qed
    then have u_hi: "u \<le> 971" by (simp add: u_def)
    from binade_spec(4) [OF lt] have "\<bar>x\<bar> < 2 powi (u + 53)" by (simp add: u_def add.commute)
    also have "\<dots> = 2 powi u * 2 powi 53" by (rule power_int_add) simp
    finally have "\<bar>x\<bar> < 2 ^ 53 * 2 powi u" by (simp add: mult.commute)
    then have "\<bar>x\<bar> / 2 powi u < 2 ^ 53" by (simp add: pos_divide_less_eq)
    then have small: "\<bar>r\<bar> < 2 ^ 53" using absr by simp
    have "- (2 ^ 53) \<le> \<lfloor>r\<rfloor>"
    proof -
      from small have "(of_int (- (2 ^ 53)) :: real) \<le> r" by simp
      then show ?thesis by (simp only: le_floor_iff)
    qed
    moreover have "\<lceil>r\<rceil> \<le> 2 ^ 53"
    proof -
      from small have "r \<le> (of_int (2 ^ 53) :: real)" by simp
      then show ?thesis by (simp only: ceiling_le_iff)
    qed
    ultimately have N_bd: "\<bar>N\<bar> \<le> 2 ^ 53" using N_lo N_hi by linarith
    have "representable y"
    proof (cases "\<bar>N\<bar> < 2 ^ 53")
      case True
      with u_lo u_hi show ?thesis unfolding representable_def y_def by blast
    next
      case False
      with N_bd have Neq: "\<bar>N\<bar> = 2 ^ 53" by simp
      have "u \<noteq> 971"
      proof
        assume "u = 971"
        with absy Neq have "\<bar>y\<bar> = 2 ^ 53 * 2 powi 971" by simp
        also have "\<dots> = (2::real) powi 1024" by simp
        finally show False using \<open>\<bar>y\<bar> < 2 powi 1024\<close> by simp
      qed
      with u_hi have u1: "u + 1 \<le> 971" by simp
      define n' :: int where "n' = (if 0 \<le> N then 2 ^ 52 else - (2 ^ 52))"
      have "N = 2 * n'" using Neq by (auto simp: n'_def abs_if split: if_splits)
      moreover have "(2::real) powi (u + 1) = 2 powi u * 2" by (rule power_int_add_1) simp
      ultimately have "y = of_int n' * 2 powi (u + 1)"
        by (simp add: y_def)
      moreover have "\<bar>n'\<bar> < 2 ^ 53" by (simp add: n'_def)
      ultimately show ?thesis using u_lo u1 unfolding representable_def
        by (intro exI [of _ n'] exI [of _ "u + 1"]) simp
    qed
    with f show thesis by (rule fin)
  qed
qed

lemma rnd_zero [simp]: "rnd 0 = Fin 0"
proof -
  have "representable 0" unfolding representable_def
    by (intro exI [of _ 0] exI [of _ 0]) simp
  then show ?thesis by (rule rnd_representable)
qed

lemma rnd_not_NaN [simp]: "rnd x \<noteq> NaN"
  by (cases x rule: rnd_cases) simp_all

lemma rnd_idem: "rnd x = Fin y \<Longrightarrow> rnd y = Fin y"
  by (cases x rule: rnd_cases) (auto intro: rnd_representable)


lemma fadd_NaN_right [simp]: "fadd a NaN = NaN"
  by (cases a) simp_all

lemma fmul_NaN_right [simp]: "fmul a NaN = NaN"
  by (cases a) simp_all

lemma fadd_rnd_zero: "fadd (rnd v) (Fin 0) = rnd v"
proof (cases v rule: rnd_cases)
  case (fin y)
  then show ?thesis by (simp add: rnd_representable)
qed simp_all

lemma pid_float_same_fin:
  "pid_float (Fin k0, Fin k1, Fin k2) (Fin x) (Fin x) = fmul (Fin k0) (Fin x)"
proof -
  have d: "fsub (Fin x) (Fin x) = Fin 0" by (simp add: fsub_def)
  have t1: "fmul (Fin k1) (Fin 0) = Fin 0" and t2: "fmul (Fin k2) (Fin 0) = Fin 0" by simp_all
  have "pid_float (Fin k0, Fin k1, Fin k2) (Fin x) (Fin x)
          = fadd (fadd (rnd (k0 * x)) (Fin 0)) (Fin 0)"
    by (simp add: pid_float_def d t1 t2)
  also have "\<dots> = rnd (k0 * x)" by (simp only: fadd_rnd_zero)
  finally show ?thesis by simp
qed

lemma pid_float_same_special:
  "pid_float g PInf PInf = NaN" "pid_float g NInf NInf = NaN" "pid_float g NaN NaN = NaN"
  by (simp_all add: pid_float_def fsub_def)

lemma binade_eqI:
  assumes "- 1022 \<le> E" "E \<le> 1023" "E = - 1022 \<or> 2 powi E \<le> \<bar>x\<bar>" "\<bar>x\<bar> < 2 powi (E + 1)"
  shows "binade x = E"
proof -
  have "(2::real) powi (E + 1) \<le> 2 powi 1024"
    using assms(2) by (intro power_int_increasing) simp_all
  with assms(4) have "\<bar>x\<bar> < 2 powi 1024" by simp
  with binade_spec(3) [of x] have "binade x \<noteq> 1024" by auto
  with binade_spec(2) [of x] have lt: "binade x < 1024" by simp
  have "binade x \<le> E"
  proof (cases "binade x = - 1022")
    case True
    with assms(1) show ?thesis by simp
  next
    case False
    with binade_spec(3) [of x] assms(4) have "(2::real) powi (binade x) < 2 powi (E + 1)" by auto
    then have "binade x < E + 1" by (rule pow2_less_cancel)
    then show ?thesis by simp
  qed
  moreover have "E \<le> binade x"
  proof (cases "E = - 1022")
    case True
    with binade_spec(1) [of x] show ?thesis by simp
  next
    case False
    with assms(3) binade_spec(4) [OF lt] have "(2::real) powi E < 2 powi (binade x + 1)" by auto
    then have "E < binade x + 1" by (rule pow2_less_cancel)
    then show ?thesis by simp
  qed
  ultimately show ?thesis by simp
qed

lemma rnd_in_binade:
  assumes "- 1022 \<le> E" "E \<le> 1023" "E = - 1022 \<or> 2 powi E \<le> \<bar>x\<bar>" "\<bar>x\<bar> < 2 powi (E + 1)"
    and "round_half_even (x / 2 powi (E - 52)) = n"
    and "\<bar>of_int n * 2 powi (E - 52)\<bar> < (2::real) powi 1024"
  shows "rnd x = Fin (of_int n * 2 powi (E - 52))"
proof -
  have b: "binade x = E" using assms(1-4) by (rule binade_eqI)
  from assms(6) have "\<not> 2 powi 1024 \<le> of_int n * (2::real) powi (E - 52)"
    "\<not> of_int n * (2::real) powi (E - 52) \<le> - (2 powi 1024)" by linarith+
  then show ?thesis using assms(5) by (simp add: rnd_def Let_def b)
qed

lemma mul_0_1_7: "fmul double_0_1 (Fin 7) = Fin (6305039478318695 / 9007199254740992)"
  using rnd_in_binade [of "- 1" "3602879701896397 / 36028797018963968 * 7" 6305039478318695]
  by (simp add: double_0_1_def round_half_even_def Let_def)


lemma sub_7_2: "fsub (Fin 7) (Fin 2) = Fin 5"
  using rnd_in_binade [of 2 5 5629499534213120]
  by (simp add: fsub_def round_half_even_def Let_def)

lemma mul_0_1_5: "fmul double_0_1 (Fin 5) = Fin (1 / 2)"
  using rnd_in_binade [of "- 1" "3602879701896397 / 36028797018963968 * 5" 4503599627370496]
  by (simp add: double_0_1_def round_half_even_def Let_def)

lemma pid_float_7_2:
  "pid_float pid_input_float (Fin 7) (Fin 2) = Fin (1914029841632461 / 1125899906842624)"
proof -
  have a: "fadd (Fin (6305039478318695 / 9007199254740992)) (Fin (1 / 2))
             = Fin (1351079888211149 / 1125899906842624)"
    using rnd_in_binade [of 0 "6305039478318695 / 9007199254740992 + 1 / 2" 5404319552844596]
    by (simp add: round_half_even_def Let_def)
  have b: "fadd (Fin (1351079888211149 / 1125899906842624)) (Fin (1 / 2))
             = Fin (1914029841632461 / 1125899906842624)"
    using rnd_in_binade [of 0 "1351079888211149 / 1125899906842624 + 1 / 2" 7656119366529844]
    by (simp add: round_half_even_def Let_def)
  have "pid_float pid_input_float (Fin 7) (Fin 2)
          = fadd (fadd (fmul double_0_1 (Fin 7)) (fmul double_0_1 (fsub (Fin 7) (Fin 2))))
                 (fmul double_0_1 (fsub (Fin 7) (Fin 2)))"
    by (simp add: pid_float_def pid_input_float_def)
  also have "\<dots> = fadd (fadd (Fin (6305039478318695 / 9007199254740992)) (Fin (1 / 2)))
                         (Fin (1 / 2))"
    by (simp only: sub_7_2 mul_0_1_5 mul_0_1_7)
  also have "\<dots> = fadd (Fin (1351079888211149 / 1125899906842624)) (Fin (1 / 2))"
    by (simp only: a)
  also have "\<dots> = Fin (1914029841632461 / 1125899906842624)"
    by (simp only: b)
  finally show ?thesis .
qed

section \<open>The PID formula\<close>

text \<open>
  For C6, as the specification states it: with the gains of the code and the error
  \<open>inf\<close> on both sides, the difference \<open>inf - inf\<close> is NaN, so \<open>pid\<close> returns NaN, while
  \<open>kp * inf\<close> is \<open>inf\<close>; the two are not equal.
\<close>

theorem pid_unchanged_error_counterexample:
  "pid_float pid_input_float PInf PInf = NaN
   \<and> fmul (fst pid_input_float) PInf = PInf
   \<and> \<not> feq (pid_float pid_input_float PInf PInf) (fmul (fst pid_input_float) PInf)"
  by (simp add: pid_float_def pid_input_float_def double_0_1_def fsub_def feq_def)

text \<open>
  C6, amended: on floats, \<open>pid\<close> returns the value of
  \<open>kp * error + kd1 * (error - prev_error) + kd2 * (error - prev_error)\<close> in double
  arithmetic, summed from left to right. For finite gains and every finite \<open>e\<close>,
  \<open>pid e e\<close> equals \<open>kp * e\<close> exactly: both derivative-shaped terms are exactly 0, and
  adding 0 does not change the rounded product. For an infinite or NaN \<open>e\<close> the result
  is NaN.
\<close>

theorem pid_unchanged_error:
  "pid_float (kp, kd1, kd2) error prev_error
     = fadd (fadd (fmul kp error) (fmul kd1 (fsub error prev_error)))
            (fmul kd2 (fsub error prev_error))
   \<and> feq (pid_float (Fin k0, Fin k1, Fin k2) (Fin e) (Fin e)) (fmul (Fin k0) (Fin e))
   \<and> pid_float (kp, kd1, kd2) PInf PInf = NaN
   \<and> pid_float (kp, kd1, kd2) NInf NInf = NaN
   \<and> pid_float (kp, kd1, kd2) NaN NaN = NaN"
proof -
  have "pid_float (Fin k0, Fin k1, Fin k2) (Fin e) (Fin e) = rnd (k0 * e)"
    using pid_float_same_fin [of k0 k1 k2 e] by simp
  then have "feq (pid_float (Fin k0, Fin k1, Fin k2) (Fin e) (Fin e)) (fmul (Fin k0) (Fin e))"
    by (simp add: feq_def)
  then show ?thesis
    by (simp add: pid_float_same_special) (simp add: pid_float_def)
qed

theorem pid_unchanged_error_witness:
  "feq (pid_float pid_input_float (Fin 7) (Fin 7)) (fmul (fst pid_input_float) (Fin 7))
   \<and> fmul (fst pid_input_float) (Fin 7) = Fin (6305039478318695 / 9007199254740992)"
proof -
  define k :: real where "k = 3602879701896397 / 36028797018963968"
  have g: "pid_input_float = (Fin k, Fin k, Fin k)"
    by (simp add: pid_input_float_def double_0_1_def k_def)
  from pid_unchanged_error [of _ _ _ _ _ k k k 7]
  have "feq (pid_float (Fin k, Fin k, Fin k) (Fin 7) (Fin 7)) (fmul (Fin k) (Fin 7))"
    by blast
  then have 1: "feq (pid_float pid_input_float (Fin 7) (Fin 7))
                  (fmul (fst pid_input_float) (Fin 7))"
    by (simp only: g fst_conv)
  have 2: "fmul (fst pid_input_float) (Fin 7) = Fin (6305039478318695 / 9007199254740992)"
    using mul_0_1_7 by (simp only: pid_input_float_def fst_conv)
  from 1 2 show ?thesis by blast
qed

section \<open>The TRACK tick\<close>

text \<open>
  For C1, as the specification states it: in the state reached by one detection the
  tick returns with \<open>prev_x_err\<close> still 0, while the \<open>x_err\<close> it used is 20 (and likewise
  0 against 60 on the other axis).
\<close>

theorem track_tick_keeps_prev_counterexample:
  "execute_track_tick track_state
     = Inr (track_state, \<lparr> left_right = 0, forward_backward = 0, up_down = 50, yaw = 6 \<rparr>)
   \<and> x_err track_state = 20 \<and> prev_x_err track_state = 0
   \<and> y_err track_state = 60 \<and> prev_y_err track_state = 0"
  by (simp add: execute_track_tick_def Let_def track_state_simps pid_def clip_def py_int_def)

text \<open>
  C1, amended: a TRACK tick writes no attribute of the server. After the command
  computation \<open>prev_x_err\<close> and \<open>prev_y_err\<close> have the values they had before it, so the
  next tick's derivative term is computed against the same previous error as this one.
\<close>

theorem track_tick_keeps_prev:
  assumes "execute_track_tick s = Inr (s', c)"
  shows "s' = s \<and> prev_x_err s' = prev_x_err s \<and> prev_y_err s' = prev_y_err s"
  using execute_track_tick_state [OF assms] by simp

theorem track_tick_keeps_prev_witness:
  "execute_track_tick far_state
     = Inr (far_state, \<lparr> left_right = 0, forward_backward = 0, up_down = 50, yaw = 100 \<rparr>)
   \<and> prev_x_err far_state = 0 \<and> prev_y_err far_state = 0"
  using track_tick_keeps_prev [OF far_state_tick] far_state_tick
  by (simp add: far_state_simps)

text \<open>
  C7: with the area attribute assigned and the lower bound of the range not above the
  upper one, a TRACK tick returns a command whose forward component is 20 when the area
  is below the lower bound, -20 when it is above the upper bound, and 0 when it is in
  the range, the two bounds themselves included.
\<close>

theorem track_forward:
  assumes "area s = Some a"
    and "fst (setpoint_area s) \<le> snd (setpoint_area s)"
  shows "\<exists>c. execute_track_tick s = Inr (s, c)
           \<and> (a < fst (setpoint_area s) \<longrightarrow> forward_backward c = 20)
           \<and> (snd (setpoint_area s) < a \<longrightarrow> forward_backward c = - 20)
           \<and> (fst (setpoint_area s) \<le> a \<and> a \<le> snd (setpoint_area s)
                \<longrightarrow> forward_backward c = 0)"
  using assms by (auto simp: execute_track_tick_def Let_def)

theorem track_forward_witness:
  "area edge_state = Some 20000
   \<and> fst (setpoint_area edge_state) = 20000 \<and> snd (setpoint_area edge_state) = 100000
   \<and> (\<exists>c. execute_track_tick edge_state = Inr (edge_state, c) \<and> forward_backward c = 0)"
  using track_forward [of edge_state 20000]
  by (simp add: edge_state_simps)

text \<open>
  C8: whatever the errors are, the yaw of the command of a TRACK tick lies between -100
  and 100 and its vertical component between -50 and 50; an axis whose error is 0 gets
  the command 0.
\<close>

theorem track_clamped:
  assumes "execute_track_tick s = Inr (s', c)"
  shows "- 100 \<le> yaw c \<and> yaw c \<le> 100 \<and> - 50 \<le> up_down c \<and> up_down c \<le> 50
         \<and> (x_err s = 0 \<longrightarrow> yaw c = 0) \<and> (y_err s = 0 \<longrightarrow> up_down c = 0)"
proof -
  have y: "- 100 \<le> py_int (clip v (- 100) 100) \<and> py_int (clip v (- 100) 100) \<le> 100" for v
    using py_int_bounds [of "- 100" "clip v (- 100) 100" 100] clip_bounds [of "- 100" 100 v]
    by simp
  have u: "- 50 \<le> py_int (clip v (- 50) 50) \<and> py_int (clip v (- 50) 50) \<le> 50" for v
    using py_int_bounds [of "- 50" "clip v (- 50) 50" 50] clip_bounds [of "- 50" 50 v]
    by simp
  from assms obtain a where a: "area s = Some a"
    by (auto simp: execute_track_tick_def Let_def split: option.splits)
  from assms a
  have "yaw c = (if x_err s \<noteq> 0
                 then py_int (clip (pid s (x_err s) (prev_x_err s)) (- 100) 100)
                 else 0)"
    and "up_down c = (if y_err s \<noteq> 0
                      then py_int (clip (3 * pid s (y_err s) (prev_y_err s)) (- 50) 50)
                      else 0)"
    by (auto simp: execute_track_tick_def Let_def)
  then show ?thesis using y u by simp
qed

theorem track_clamped_witness:
  "x_err far_state = 1000000000 \<and> y_err far_state = 1000000000
   \<and> execute_track_tick far_state
       = Inr (far_state, \<lparr> left_right = 0, forward_backward = 0, up_down = 50, yaw = 100 \<rparr>)
   \<and> - 100 \<le> (100 :: int) \<and> (50 :: int) \<le> 50"
  using track_clamped [OF far_state_tick] far_state_tick
  by (simp add: far_state_simps)

section \<open>The feedback callback\<close>

text \<open>
  For C2, as the specification states it: a result with area 0 that arrives in the state
  reached by one detection changes \<open>x_err\<close> from 20 to 0 and \<open>y_err\<close> from 60 to 0.
\<close>

theorem lost_target_counterexample:
  "msg_area lost_msg = 0
   \<and> x_err track_state = 20 \<and> x_err (process_var_sub_cb lost_msg track_state) = 0
   \<and> y_err track_state = 60 \<and> y_err (process_var_sub_cb lost_msg track_state) = 0"
  by (simp add: track_state_simps process_var_sub_cb_def lost_msg_def)

text \<open>
  C2, amended: for every prior state, the callback with a result whose area is 0 sets
  \<open>is_search\<close> to true, sets \<open>x_err\<close> to \<open>prev_x_err\<close> and \<open>y_err\<close> to \<open>prev_y_err\<close>, and changes
  nothing else.
\<close>

theorem lost_target_resets_errors:
  assumes "msg_area msg = 0"
  shows "process_var_sub_cb msg s
           = s\<lparr> is_search := True, x_err := prev_x_err s, y_err := prev_y_err s \<rparr>"
  using assms by (simp add: process_var_sub_cb_def)

theorem lost_target_resets_errors_witness:
  "msg_area lost_msg = 0
   \<and> process_var_sub_cb lost_msg track_state
       = track_state\<lparr> is_search := True, x_err := 0, y_err := 0 \<rparr>"
  using lost_target_resets_errors [of lost_msg track_state]
  by (simp add: lost_msg_def track_state_simps)

text \<open>
  For C10, as the specification states it. A callback for a message with area -5 runs to
  its end: the server is in track mode and its area is -5, not the area of a call with
  a positive area. And when the callback of the first detection has executed line 89
  but not yet line 90, the flag is cleared while the area attribute does not exist; the
  action thread, which tests the flag twice and enters the body of the track loop,
  fails on the attribute.
\<close>

theorem area_assigned_before_track_counterexample:
  "run_threads negative_area_run init_threads
     = Inr \<lparr> server = process_var_sub_cb neg_msg init_server,
             subscriber = NoCall, controller = Line207 \<rparr>
   \<and> \<not> is_search (process_var_sub_cb neg_msg init_server)
   \<and> area (process_var_sub_cb neg_msg init_server) = Some (- 5)
   \<and> run_threads [Deliver seen_msg, SubStep, SubStep] init_threads
       = Inr \<lparr> server = init_server\<lparr> is_search := False \<rparr>,
               subscriber = Line90 seen_msg, controller = Line207 \<rparr>
   \<and> \<not> is_search (init_server\<lparr> is_search := False \<rparr>)
   \<and> area (init_server\<lparr> is_search := False \<rparr>) = None
   \<and> execute_track_tick (init_server\<lparr> is_search := False \<rparr>) = Inl AttributeError
   \<and> run_threads torn_callback_run init_threads = Inl AttributeError"
  by (intro conjI)
     (rule negative_area_run_result negative_area_state torn_callback_state torn_state_tick
        torn_callback_run_result)+

text \<open>
  C10, amended: in every state that a run of the two threads reaches from the initial
  state and in which the subscriber thread does not stand between lines 89 and 90 of
  its callback, a cleared \<open>is_search\<close> flag implies that the area attribute holds the
  area of a message delivered before, one with a non-zero area, so that the body of the
  track loop returns a command; and in such a state the next step of the action thread
  does not fail on the attribute.
\<close>

theorem area_assigned_before_track:
  assumes "run_threads steps init_threads = Inr t"
    and "\<not> at_line_90 (subscriber t)"
  shows "(\<not> is_search (server t) \<longrightarrow>
            (\<exists>msg. Deliver msg \<in> set steps \<and> msg_area msg \<noteq> 0
                   \<and> area (server t) = Some (msg_area msg))
            \<and> (\<exists>c. execute_track_tick (server t) = Inr (server t, c)))
         \<and> (\<exists>t'. ctl_step t = Inr t')"
proof -
  from run_threads_tracked [OF init_threads_tracked assms(1)]
  have inv: "tracked_by (delivered steps) t" by simp
  have a: "\<exists>msg. Deliver msg \<in> set steps \<and> msg_area msg \<noteq> 0
                  \<and> area (server t) = Some (msg_area msg)"
    if "area (server t) \<noteq> None"
    using inv that unfolding tracked_by_def delivered_def by (auto split: option.splits)
  have n: "is_search (server t) \<and> controller t \<noteq> Line160" if "area (server t) = None"
    using inv that assms(2) unfolding tracked_by_def by (auto split: option.splits)
  have 1: "(\<exists>msg. Deliver msg \<in> set steps \<and> msg_area msg \<noteq> 0
                   \<and> area (server t) = Some (msg_area msg))
            \<and> (\<exists>c. execute_track_tick (server t) = Inr (server t, c))"
    if s: "\<not> is_search (server t)"
  proof -
    from n s obtain v where v: "area (server t) = Some v" by (cases "area (server t)") auto
    from a v execute_track_tick_returns [OF v] show ?thesis by simp
  qed
  have 2: "\<exists>t'. ctl_step t = Inr t'"
  proof (cases "controller t")
    case Line160
    with n obtain v where "area (server t) = Some v" by (cases "area (server t)") auto
    from execute_track_tick_returns [OF this] obtain c
      where "execute_track_tick (server t) = Inr (server t, c)" ..
    with Line160 show ?thesis by (simp add: ctl_step_simps(4))
  qed (simp_all add: ctl_step_simps)
  from 1 2 show ?thesis by blast
qed

theorem area_assigned_before_track_witness:
  "run_threads whole_callback_run init_threads
     = Inr \<lparr> server = track_state, subscriber = NoCall, controller = Line160 \<rparr>
   \<and> \<not> is_search track_state
   \<and> Deliver seen_msg \<in> set whole_callback_run \<and> msg_area seen_msg \<noteq> 0
   \<and> area track_state = Some (msg_area seen_msg)
   \<and> (\<exists>c. execute_track_tick track_state = Inr (track_state, c))
   \<and> (\<exists>t'. ctl_step \<lparr> server = track_state, subscriber = NoCall, controller = Line160 \<rparr>
             = Inr t')"
proof -
  have h: "\<not> at_line_90
             (subscriber \<lparr> server = track_state, subscriber = NoCall, controller = Line160 \<rparr>)"
    by simp
  from area_assigned_before_track [OF whole_callback_run_result h]
  have "(\<exists>c. execute_track_tick track_state = Inr (track_state, c))
        \<and> (\<exists>t'. ctl_step \<lparr> server = track_state, subscriber = NoCall, controller = Line160 \<rparr>
                  = Inr t')"
    by (simp add: track_state_simps)
  moreover have "Deliver seen_msg \<in> set whole_callback_run"
    by (simp add: whole_callback_run_def)
  moreover have "msg_area seen_msg \<noteq> 0" "area track_state = Some (msg_area seen_msg)"
    "\<not> is_search track_state"
    by (simp_all add: seen_msg_def track_state_simps)
  ultimately show ?thesis
    using whole_callback_run_result by blast
qed

section \<open>The concurrent container\<close>

text \<open>
  For C3, as the specification states it: when \<open>PUBLISH\<close> ends \<open>succeeded\<close> and only
  \<open>CONTROL_MOTOR\<close> ends \<open>aborted\<close>, the container's outcome is \<open>succeeded\<close>.
\<close>

theorem composite_counterexample:
  "sm_concurrent succeeded aborted = succeeded \<and> sm_concurrent succeeded aborted \<noteq> aborted"
  by (simp add: sm_concurrent_def concurrence_outcome_def entry_holds_def)

text \<open>
  C3, amended: the outcome of the container is \<open>aborted\<close> exactly when the \<open>PUBLISH\<close> child
  ends \<open>aborted\<close>, and \<open>succeeded\<close> otherwise; the outcome of the \<open>CONTROL_MOTOR\<close> child has no
  influence on it.
\<close>

theorem composite_follows_publish:
  "sm_concurrent publish control_motor = (if publish = aborted then aborted else succeeded)"
  by (simp add: sm_concurrent_def concurrence_outcome_def entry_holds_def)

theorem composite_follows_publish_witness:
  "sm_concurrent aborted succeeded = aborted \<and> sm_concurrent preempted aborted = succeeded"
  using composite_follows_publish [of aborted succeeded]
    composite_follows_publish [of preempted aborted]
  by simp

section \<open>The CONNECT callback\<close>

text \<open>
  C4, on the code: the clock starts at 0; in the first iteration, one second later and
  with no preempt pending, \<open>connect_uav()\<close> raises. The callback prints its message and
  ends with that exception after this one attempt, 29 seconds before the deadline; the
  second poll, where the connection would have succeeded, is not reached.
\<close>

theorem connect_failure_ends_stage:
  "now failing_poll - 0 \<le> 30 \<and> \<not> is_preempt_requested failing_poll
   \<and> execute_init_cb 0 [failing_poll, success_poll] init_server
       = ([ConnectAttempt, PrintTryingAgain], Raised ConnectError, init_server)"
  by (simp add: failing_poll_def success_poll_def init_server_def)

text \<open>
  C5, on the code: with a preempt request pending in the first iteration, 31 seconds
  after the start, the callback ends with \<open>AttributeError\<close>; it has called neither
  \<open>set_preempted()\<close> nor any other method of the action server.
\<close>

theorem preempt_not_reported:
  "is_preempt_requested preempt_late_poll \<and> now preempt_late_poll - 0 > 30
   \<and> execute_init_cb 0 [preempt_late_poll] init_server
       = ([], Raised AttributeError, init_server)"
  by (simp add: preempt_late_poll_def init_server_def)

section \<open>The frame queue\<close>

text \<open>
  C9: every sequence of arriving images and consumer iterations, run on the node as
  \<open>__init__\<close> leaves it, goes through and ends with at most 5 items in the queue. The
  images handed to the consumer, followed by those still in the queue, are the
  enqueued images in the order of their arrival. When the arriving images are pairwise
  different, no dropped image is among those handed to the consumer. An image that
  arrives while the queue is full leaves the node as it is.
\<close>

theorem frame_queue_bounded_fifo:
  "\<exists>tr n. node_run es init_node = Some (tr, n)
     \<and> length (items (image_queue n)) \<le> 5
     \<and> handed tr @ map fst (items (image_queue n)) = enqueued tr
     \<and> (distinct (arrived es) \<longrightarrow> set (dropped tr) \<inter> set (handed tr) = {})
     \<and> (\<forall>msg. Queue_full (image_queue n) \<longrightarrow>
           image_callback msg n
             = Some (case imgmsg_to_cv2 msg of Inl err \<Rightarrow> Inl err | Inr rgb_img \<Rightarrow> Inr n))"
proof -
  have b: "bounded (init_node :: 'a BaseInferenceNode)"
    by (simp add: bounded_def init_node_def Queue_new_def)
  from node_run_bounded [OF b, of es] obtain tr n
    where r: "node_run es init_node = Some (tr, n)" "bounded n"
      "maxsize (image_queue n) = maxsize (image_queue (init_node :: 'a BaseInferenceNode))"
      "waiting (init_node :: 'a BaseInferenceNode) @ enqueued tr = handed tr @ waiting n"
      "set (enqueued tr) \<union> set (dropped tr) = set (arrived es)"
      "distinct (arrived es) \<longrightarrow> set (enqueued tr) \<inter> set (dropped tr) = {}"
    by blast
  from r(2,3) have len: "length (items (image_queue n)) \<le> 5"
    by (simp add: bounded_def init_node_def Queue_new_def)
  from r(4) have fifo: "handed tr @ map fst (items (image_queue n)) = enqueued tr"
    by (simp add: waiting_def init_node_def Queue_new_def)
  then have "set (handed tr) \<subseteq> set (enqueued tr)"
    by (metis set_append Un_upper1)
  with r(6) have disj: "distinct (arrived es) \<longrightarrow> set (dropped tr) \<inter> set (handed tr) = {}"
    by blast
  show ?thesis using r(1) len fifo disj image_callback_full by blast
qed

theorem frame_queue_bounded_fifo_witness:
  "distinct (arrived burst)
   \<and> (\<exists>tr n. node_run burst init_node = Some (tr, n)
        \<and> handed tr = [1, 2, 3, 4, 5] \<and> dropped tr = [6, 7] \<and> items (image_queue n) = [])"
proof -
  have d: "distinct (arrived burst)"
    by (simp add: burst_def frame_def)
  have "\<exists>tr n. node_run burst init_node = Some (tr, n)
        \<and> handed tr = [1, 2, 3, 4, 5] \<and> dropped tr = [6, 7] \<and> items (image_queue n) = []"
    by (simp add: burst_def frame_def init_node_def Queue_new_def image_callback_def
          run_iteration_def arrival_def Queue_full_def Queue_put_def Queue_get_def Queue_empty_def)
  with d frame_queue_bounded_fifo [of burst] show ?thesis by simp
qed

end
